theory Spec2Isabelle
  imports Complex_Main "HOL-Library.AList" "HOL-Library.Stream"
begin

section \<open>Graph colouring by simulated annealing: the model of graph.py\<close>

text \<open>
  The functions of \<^verbatim>\<open>graph.py\<close> are embedded one by one, under their own names.
  Python integers are \<^typ>\<open>int\<close>. Python floats (the temperature, the cooling rate, the
  edge probability and the values of \<^verbatim>\<open>random.random()\<close>) are \<^typ>\<open>real\<close>: rounding,
  infinities and NaN are outside the model. A dictionary is an association list in
  insertion order, since \<^verbatim>\<open>list(d.keys())\<close> depends on that order.
\<close>

subsection \<open>Exceptions\<close>

datatype error = KeyError | IndexError | ValueError | ZeroDivisionError | OverflowError

subsection \<open>The random source\<close>

text \<open>
  The module draws from Python's global generator. The model makes the generator an
  explicit state: two infinite tapes, one holding the values that successive calls of
  \<^verbatim>\<open>random.random()\<close> return, one holding the raw naturals from which
  \<^verbatim>\<open>random.randint\<close> and \<^verbatim>\<open>random.choice\<close> pick an index. Every
  call consumes the head of its tape.
\<close>

record rng =
  unit_draws :: "real stream"
  index_draws :: "nat stream"

definition random_random :: "rng \<Rightarrow> real \<times> rng" where
  "random_random r = (shd (unit_draws r), r\<lparr>unit_draws := stl (unit_draws r)\<rparr>)"

text \<open>\<^verbatim>\<open>random.randint(a, b)\<close> raises ValueError on an empty range.\<close>

definition random_randint :: "int \<Rightarrow> int \<Rightarrow> rng \<Rightarrow> error + (int \<times> rng)" where
  "random_randint a b r =
     (if b < a then Inl ValueError
      else Inr (a + int (shd (index_draws r) mod nat (b - a + 1)),
                r\<lparr>index_draws := stl (index_draws r)\<rparr>))"

text \<open>\<^verbatim>\<open>random.choice(seq)\<close> raises IndexError on an empty sequence.\<close>

definition random_choice :: "'a list \<Rightarrow> rng \<Rightarrow> error + ('a \<times> rng)" where
  "random_choice xs r =
     (if xs = [] then Inl IndexError
      else Inr (xs ! (shd (index_draws r) mod length xs),
                r\<lparr>index_draws := stl (index_draws r)\<rparr>))"

text \<open>
  \<^verbatim>\<open>math.exp(x)\<close> raises OverflowError when the result exceeds the largest double;
  \<open>exp_max\<close> is the largest argument that does not (the logarithm of the largest
  double, to twelve decimals).
\<close>

definition exp_max :: real where
  "exp_max = 709.782712893384"

definition math_exp :: "real \<Rightarrow> error + real" where
  "math_exp x = (if exp_max < x then Inl OverflowError else Inr (exp x))"

subsection \<open>Graphs\<close>

text \<open>
  A \<^verbatim>\<open>networkx.Graph\<close>, as far as the module reads it: \<^verbatim>\<open>G.nodes()\<close> in
  insertion order and \<^verbatim>\<open>G.edges()\<close>, each undirected edge once.
  \<^verbatim>\<open>G.add_edge(u, v)\<close> adds the endpoints that are not yet nodes, and adds the
  edge unless it is already there in either direction.
\<close>

record graph =
  nodes :: "int list"
  edges :: "(int \<times> int) list"

definition empty_graph :: graph where
  "empty_graph = \<lparr>nodes = [], edges = []\<rparr>"

definition add_node :: "graph \<Rightarrow> int \<Rightarrow> graph" where
  "add_node G u = (if u \<in> set (nodes G) then G else G\<lparr>nodes := nodes G @ [u]\<rparr>)"

definition add_edge :: "graph \<Rightarrow> int \<Rightarrow> int \<Rightarrow> graph" where
  "add_edge G u v =
     (let G1 = add_node G u; G2 = add_node G1 v
      in if (u, v) \<in> set (edges G2) \<or> (v, u) \<in> set (edges G2) then G2
         else G2\<lparr>edges := edges G2 @ [(u, v)]\<rparr>)"

text \<open>
  What networkx guarantees of every graph: the nodes are distinct, both endpoints of an
  edge are nodes, and no unordered pair is listed twice.
\<close>

definition wf_graph :: "graph \<Rightarrow> bool" where
  "wf_graph G \<longleftrightarrow>
     distinct (nodes G) \<and>
     (\<forall>e \<in> set (edges G). fst e \<in> set (nodes G) \<and> snd e \<in> set (nodes G)) \<and>
     distinct (edges G) \<and>
     (\<forall>e \<in> set (edges G). fst e \<noteq> snd e \<longrightarrow> (snd e, fst e) \<notin> set (edges G))"

subsection \<open>generate_random_graph\<close>

text \<open>
  The inner loop \<^verbatim>\<open>for j in range(i+1, n_nodes)\<close> and the outer loop
  \<^verbatim>\<open>for i in range(n_nodes)\<close>, each over the list of its range.
\<close>

fun gen_inner :: "real \<Rightarrow> int \<Rightarrow> int list \<Rightarrow> graph \<times> rng \<Rightarrow> graph \<times> rng" where
  "gen_inner p i [] (G, r) = (G, r)"
| "gen_inner p i (j # js) (G, r) =
     (let (u, r') = random_random r
      in gen_inner p i js (if u < p then add_edge G i j else G, r'))"

fun gen_outer :: "real \<Rightarrow> int \<Rightarrow> int list \<Rightarrow> graph \<times> rng \<Rightarrow> graph \<times> rng" where
  "gen_outer p n [] (G, r) = (G, r)"
| "gen_outer p n (i # is) (G, r) = gen_outer p n is (gen_inner p i [i + 1 .. n - 1] (G, r))"

definition generate_random_graph :: "int \<Rightarrow> real \<Rightarrow> rng \<Rightarrow> graph \<times> rng" where
  "generate_random_graph n_nodes edge_probability r =
     gen_outer edge_probability n_nodes [0 .. n_nodes - 1] (empty_graph, r)"

subsection \<open>Colourings, initial_solution and cost\<close>

type_synonym coloring = "(int \<times> int) list"

text \<open>\<^verbatim>\<open>coloring[u]\<close> raises KeyError when \<open>u\<close> is not a key.\<close>

definition getitem :: "coloring \<Rightarrow> int \<Rightarrow> error + int" where
  "getitem coloring u = (case map_of coloring u of None \<Rightarrow> Inl KeyError | Some c \<Rightarrow> Inr c)"

text \<open>
  The dictionary comprehension of \<^verbatim>\<open>initial_solution\<close>: one
  \<^verbatim>\<open>random.randint(0, n_colors-1)\<close> per node, in the order of \<^verbatim>\<open>G.nodes()\<close>.
\<close>

fun init_loop :: "int list \<Rightarrow> int \<Rightarrow> coloring \<Rightarrow> rng \<Rightarrow> error + (coloring \<times> rng)" where
  "init_loop [] n_colors acc r = Inr (acc, r)"
| "init_loop (node # ns) n_colors acc r =
     (case random_randint 0 (n_colors - 1) r of
        Inl e \<Rightarrow> Inl e
      | Inr (c, r') \<Rightarrow> init_loop ns n_colors (AList.update node c acc) r')"

definition initial_solution :: "graph \<Rightarrow> int \<Rightarrow> rng \<Rightarrow> error + (coloring \<times> rng)" where
  "initial_solution G n_colors r = init_loop (nodes G) n_colors [] r"

text \<open>
  \<^verbatim>\<open>sum(1 for u, v in G.edges() if coloring[u] == coloring[v])\<close>: the edges in order,
  both lookups for each.
\<close>

fun cost_edges :: "coloring \<Rightarrow> (int \<times> int) list \<Rightarrow> error + int" where
  "cost_edges coloring [] = Inr 0"
| "cost_edges coloring ((u, v) # es) =
     (case getitem coloring u of
        Inl e \<Rightarrow> Inl e
      | Inr cu \<Rightarrow>
         (case getitem coloring v of
            Inl e \<Rightarrow> Inl e
          | Inr cv \<Rightarrow>
             (case cost_edges coloring es of
                Inl e \<Rightarrow> Inl e
              | Inr n \<Rightarrow> Inr ((if cu = cv then 1 else 0) + n))))"

definition cost :: "graph \<Rightarrow> coloring \<Rightarrow> error + int" where
  "cost G coloring = cost_edges coloring (edges G)"

text \<open>A proper colouring: no edge joins two nodes of the same colour.\<close>

definition proper :: "graph \<Rightarrow> coloring \<Rightarrow> bool" where
  "proper G coloring \<longleftrightarrow> (\<forall>e \<in> set (edges G). map_of coloring (fst e) \<noteq> map_of coloring (snd e))"

text \<open>The colouring is total over the nodes of the graph.\<close>

definition total_coloring :: "graph \<Rightarrow> coloring \<Rightarrow> bool" where
  "total_coloring G coloring \<longleftrightarrow> set (nodes G) \<subseteq> fst ` set coloring"

subsection \<open>neighbor\<close>

text \<open>
  \<^verbatim>\<open>coloring.copy()\<close>, then \<^verbatim>\<open>random.choice\<close> over the keys, then
  \<^verbatim>\<open>random.randint(0, n_colors-1)\<close>, then the assignment to the chosen key.
  On values the copy is the identity.
\<close>

definition neighbor :: "coloring \<Rightarrow> int \<Rightarrow> rng \<Rightarrow> error + (coloring \<times> rng)" where
  "neighbor coloring n_colors r =
     (let new_coloring = coloring
      in case random_choice (map fst new_coloring) r of
           Inl e \<Rightarrow> Inl e
         | Inr (node, r1) \<Rightarrow>
            (case random_randint 0 (n_colors - 1) r1 of
               Inl e \<Rightarrow> Inl e
             | Inr (c, r2) \<Rightarrow> Inr (AList.update node c new_coloring, r2)))"

text \<open>
  The same function on a store of dictionary objects, where mutation and aliasing are
  visible: an address is an index into the list of objects, \<^verbatim>\<open>copy()\<close>
  allocates a new object, and the assignment \<^verbatim>\<open>new_coloring[node] = ...\<close>
  overwrites the object at the address of \<open>new_coloring\<close>. The function returns the
  store and the address of its result.
\<close>

type_synonym store = "coloring list"

definition dict_copy :: "store \<Rightarrow> nat \<Rightarrow> store \<times> nat" where
  "dict_copy h a = (h @ [h ! a], length h)"

definition dict_setitem :: "store \<Rightarrow> nat \<Rightarrow> int \<Rightarrow> int \<Rightarrow> store" where
  "dict_setitem h a k v = h[a := AList.update k v (h ! a)]"

definition neighbor_obj :: "store \<Rightarrow> nat \<Rightarrow> int \<Rightarrow> rng \<Rightarrow> error + (store \<times> nat \<times> rng)" where
  "neighbor_obj h coloring n_colors r =
     (let (h1, new_coloring) = dict_copy h coloring
      in case random_choice (map fst (h1 ! new_coloring)) r of
           Inl e \<Rightarrow> Inl e
         | Inr (node, r1) \<Rightarrow>
            (case random_randint 0 (n_colors - 1) r1 of
               Inl e \<Rightarrow> Inl e
             | Inr (c, r2) \<Rightarrow> Inr (dict_setitem h1 new_coloring node c, new_coloring, r2)))"

subsection \<open>simulated_annealing\<close>

text \<open>The local variables of the loop.\<close>

record sa_state =
  current_solution :: coloring
  current_cost :: int
  best_solution :: coloring
  best_cost :: int
  temperature :: real
  cost_history :: "int list"

text \<open>
  The condition of line 40,
  \<^verbatim>\<open>new_cost < current_cost or random.random() < math.exp((current_cost - new_cost) / temperature)\<close>.
  The \<^verbatim>\<open>or\<close> short-circuits: no number is drawn for an improving candidate.
  Otherwise \<^verbatim>\<open>random.random()\<close> is called first, then the division, which raises
  ZeroDivisionError at temperature zero, then \<^verbatim>\<open>math.exp\<close>.
\<close>

definition accept :: "int \<Rightarrow> int \<Rightarrow> real \<Rightarrow> rng \<Rightarrow> error + (bool \<times> rng)" where
  "accept cur_cost new_cost temp r =
     (if new_cost < cur_cost then Inr (True, r)
      else let (u, r') = random_random r
           in if temp = 0 then Inl ZeroDivisionError
              else (case math_exp (real_of_int (cur_cost - new_cost) / temp) of
                      Inl e \<Rightarrow> Inl e
                    | Inr x \<Rightarrow> Inr (u < x, r')))"

text \<open>Lines 41 to 45: the assignments made when the candidate is accepted.\<close>

definition take_candidate :: "sa_state \<Rightarrow> coloring \<Rightarrow> int \<Rightarrow> sa_state" where
  "take_candidate s new_solution new_cost =
     (let s1 = s\<lparr>current_solution := new_solution, current_cost := new_cost\<rparr>
      in if current_cost s1 < best_cost s1
         then s1\<lparr>best_solution := current_solution s1, best_cost := current_cost s1\<rparr>
         else s1)"

text \<open>One pass through the body of the loop, lines 38 to 47.\<close>

definition sa_step :: "graph \<Rightarrow> int \<Rightarrow> real \<Rightarrow> sa_state \<times> rng \<Rightarrow> error + (sa_state \<times> rng)" where
  "sa_step G n_colors cooling_rate sr =
     (case sr of (s, r) \<Rightarrow>
      (case neighbor (current_solution s) n_colors r of
         Inl e \<Rightarrow> Inl e
       | Inr (new_solution, r1) \<Rightarrow>
          (case cost G new_solution of
             Inl e \<Rightarrow> Inl e
           | Inr new_cost \<Rightarrow>
              (case accept (current_cost s) new_cost (temperature s) r1 of
                 Inl e \<Rightarrow> Inl e
               | Inr (acc, r2) \<Rightarrow>
                  (let s1 = (if acc then take_candidate s new_solution new_cost else s);
                       s2 = s1\<lparr>cost_history := cost_history s1 @ [current_cost s1]\<rparr>;
                       s3 = s2\<lparr>temperature := temperature s2 * cooling_rate\<rparr>
                   in Inr (s3, r2))))))"

text \<open>\<^verbatim>\<open>for _ in range(n_iterations)\<close>: the body, the given number of times.\<close>

fun sa_loop :: "graph \<Rightarrow> int \<Rightarrow> real \<Rightarrow> nat \<Rightarrow> sa_state \<times> rng \<Rightarrow> error + (sa_state \<times> rng)" where
  "sa_loop G n_colors cooling_rate 0 sr = Inr sr"
| "sa_loop G n_colors cooling_rate (Suc n) sr =
     (case sa_step G n_colors cooling_rate sr of
        Inl e \<Rightarrow> Inl e
      | Inr sr' \<Rightarrow> sa_loop G n_colors cooling_rate n sr')"

text \<open>Lines 30 to 35: the state before the first iteration.\<close>

definition sa_init :: "graph \<Rightarrow> int \<Rightarrow> real \<Rightarrow> rng \<Rightarrow> error + (sa_state \<times> rng)" where
  "sa_init G n_colors initial_temp r =
     (case initial_solution G n_colors r of
        Inl e \<Rightarrow> Inl e
      | Inr (sol, r1) \<Rightarrow>
         (case cost G sol of
            Inl e \<Rightarrow> Inl e
          | Inr c \<Rightarrow>
             Inr (\<lparr>current_solution = sol, current_cost = c, best_solution = sol,
                   best_cost = c, temperature = initial_temp, cost_history = [c]\<rparr>, r1)))"

text \<open>
  The run up to the \<^verbatim>\<open>return\<close>, with all its variables; \<^verbatim>\<open>range\<close> of a
  negative number is empty.
\<close>

definition sa_run :: "graph \<Rightarrow> int \<Rightarrow> real \<Rightarrow> real \<Rightarrow> int \<Rightarrow> rng \<Rightarrow> error + (sa_state \<times> rng)" where
  "sa_run G n_colors initial_temp cooling_rate n_iterations r =
     (case sa_init G n_colors initial_temp r of
        Inl e \<Rightarrow> Inl e
      | Inr sr \<Rightarrow> sa_loop G n_colors cooling_rate (nat n_iterations) sr)"

definition simulated_annealing ::
  "graph \<Rightarrow> int \<Rightarrow> real \<Rightarrow> real \<Rightarrow> int \<Rightarrow> rng \<Rightarrow> error + ((coloring \<times> int \<times> int list) \<times> rng)" where
  "simulated_annealing G n_colors initial_temp cooling_rate n_iterations r =
     (case sa_run G n_colors initial_temp cooling_rate n_iterations r of
        Inl e \<Rightarrow> Inl e
      | Inr (s, r') \<Rightarrow> Inr ((best_solution s, best_cost s, cost_history s), r'))"

subsection \<open>find_optimal_coloring\<close>

text \<open>
  The \<^verbatim>\<open>while True\<close> loop may run forever: the result is an option, and
  \<open>None\<close> is the call that never returns. An exception of the annealing run ends the
  call.
\<close>

partial_function (option) foc_loop ::
  "graph \<Rightarrow> real \<Rightarrow> real \<Rightarrow> int \<Rightarrow> int \<Rightarrow> rng \<Rightarrow> (error + ((coloring \<times> int \<times> int list) \<times> rng)) option" where
  "foc_loop G initial_temp cooling_rate n_iterations n_colors r =
     (case simulated_annealing G n_colors initial_temp cooling_rate n_iterations r of
        Inl e \<Rightarrow> Some (Inl e)
      | Inr ((best, c, history), r') \<Rightarrow>
         (if c = 0 then Some (Inr ((best, n_colors, history), r'))
          else foc_loop G initial_temp cooling_rate n_iterations (n_colors + 1) r'))"

definition find_optimal_coloring ::
  "graph \<Rightarrow> real \<Rightarrow> real \<Rightarrow> int \<Rightarrow> rng \<Rightarrow> (error + ((coloring \<times> int \<times> int list) \<times> rng)) option" where
  "find_optimal_coloring G initial_temp cooling_rate n_iterations r =
     foc_loop G initial_temp cooling_rate n_iterations 1 r"

subsection \<open>What the generation loops maintain\<close>

text \<open>
  The graph is well formed, every edge leads from a node to a greater one, both in
  \<open>[0, n)\<close>, and the nodes are the endpoints of the edges and no others.
\<close>

definition gen_inv :: "int \<Rightarrow> graph \<Rightarrow> bool" where
  "gen_inv n G \<longleftrightarrow>
     wf_graph G \<and>
     (\<forall>e \<in> set (edges G). 0 \<le> fst e \<and> fst e < snd e \<and> snd e < n) \<and>
     set (nodes G) = fst ` set (edges G) \<union> snd ` set (edges G)"

subsection \<open>The attempts before the successful one\<close>

text \<open>
  For the statement that \<open>find_optimal_coloring\<close> returns at the first number of colours
  whose run has best cost zero: the runs with \<open>n_colors = k, k + 1, \<dots>, k + m - 1\<close>, made
  in this order, each starting from the random source the one before left. The value is
  the random source after the last of them when each of the \<open>m\<close> runs returned with a
  best cost other than zero, and \<open>None\<close> otherwise.
\<close>

fun attempts_fail :: "graph \<Rightarrow> real \<Rightarrow> real \<Rightarrow> int \<Rightarrow> nat \<Rightarrow> int \<Rightarrow> rng \<Rightarrow> rng option" where
  "attempts_fail G T cr ni 0 k r = Some r"
| "attempts_fail G T cr ni (Suc m) k r =
     (case simulated_annealing G k T cr ni r of
        Inl e \<Rightarrow> None
      | Inr ((best, c, history), r') \<Rightarrow>
         (if c = 0 then None else attempts_fail G T cr ni m (k + 1) r'))"

subsection \<open>Concrete inputs\<close>

text \<open>
  A path on three nodes with a colouring that leaves one edge in conflict, the graph of
  one edge, and a store holding one dictionary.
\<close>

definition path3 :: graph where
  "path3 = \<lparr>nodes = [0, 1, 2], edges = [(0, 1), (1, 2)]\<rparr>"

definition path3_coloring :: coloring where
  "path3_coloring = [(0, 0), (1, 0), (2, 1)]"

definition one_edge :: graph where
  "one_edge = \<lparr>nodes = [0, 1], edges = [(0, 1)]\<rparr>"

definition store1 :: store where
  "store1 = [[(0, 0), (1, 0)]]"

text \<open>
  Random sources. The first two draw the same number for ever; \<open>rng_first\<close> draws 0
  once and then one half. The others prescribe the first index draws, and are named
  after what they do on the graph of one edge: \<open>rng_worsen\<close> starts a run with two
  colours from a proper colouring and then recolours node 0, \<open>rng_improve\<close> starts it
  with both nodes of colour 0 and then recolours node 1, \<open>rng_pick\<close> picks node 1 and
  colour 1, and \<open>rng_two\<close> colours node 0 with 0 and node 1 with 1.
\<close>

definition rng_zero :: rng where
  "rng_zero = \<lparr>unit_draws = sconst 0, index_draws = sconst 0\<rparr>"

definition rng_half :: rng where
  "rng_half = \<lparr>unit_draws = sconst (1/2), index_draws = sconst 0\<rparr>"

definition rng_first :: rng where
  "rng_first = \<lparr>unit_draws = 0 ## sconst (1/2), index_draws = sconst 0\<rparr>"

definition rng_worsen :: rng where
  "rng_worsen = \<lparr>unit_draws = sconst 0, index_draws = 0 ## 1 ## 0 ## 1 ## sconst 0\<rparr>"

definition rng_improve :: rng where
  "rng_improve = \<lparr>unit_draws = sconst 0, index_draws = 0 ## 0 ## 1 ## 1 ## sconst 0\<rparr>"

definition rng_pick :: rng where
  "rng_pick = \<lparr>unit_draws = sconst 0, index_draws = 1 ## 1 ## sconst 0\<rparr>"

definition rng_two :: rng where
  "rng_two = \<lparr>unit_draws = sconst 0, index_draws = 0 ## 1 ## sconst 0\<rparr>"

text \<open>
  States of the loop on the graph of one edge with two colours: both nodes of the same
  colour at temperature 10, and the state after the move that recolours node 1, with
  cooling rate one half and with cooling rate zero.
\<close>

definition state_conflict :: sa_state where
  "state_conflict = \<lparr>current_solution = [(0, 0), (1, 0)], current_cost = 1,
      best_solution = [(0, 0), (1, 0)], best_cost = 1, temperature = 10, cost_history = [1]\<rparr>"

definition state_solved :: sa_state where
  "state_solved = \<lparr>current_solution = [(0, 0), (1, 1)], current_cost = 0,
      best_solution = [(0, 0), (1, 1)], best_cost = 0, temperature = 5, cost_history = [1, 0]\<rparr>"


section \<open>The cost function\<close>

lemma cost_edges_count:
  assumes "\<forall>e \<in> set es. fst e \<in> fst ` set coloring \<and> snd e \<in> fst ` set coloring"
  shows "cost_edges coloring es =
           Inr (int (length (filter (\<lambda>e. map_of coloring (fst e) = map_of coloring (snd e)) es)))"
  using assms
proof (induction es)
  case Nil
  then show ?case by simp
next
  case (Cons e es)
  obtain u v where e: "e = (u, v)" by (cases e)
  from Cons.prems e have "u \<in> fst ` set coloring" "v \<in> fst ` set coloring" by auto
  then obtain cu cv where c: "map_of coloring u = Some cu" "map_of coloring v = Some cv"
    by (metis domD dom_map_of_conv_image_fst)
  from Cons have IH: "cost_edges coloring es =
      Inr (int (length (filter (\<lambda>e. map_of coloring (fst e) = map_of coloring (snd e)) es)))"
    by simp
  show ?case by (simp add: e c IH getitem_def)
qed

text \<open>
  Claim C2. For every graph and every colouring that is total over the nodes of the
  graph, \<open>cost\<close> returns (it does not raise) the number of edges whose two endpoints
  have the same colour; the number is not negative, and it is zero exactly when the
  colouring is proper.
\<close>

theorem cost_counts_conflicts:
  assumes "wf_graph G" and "total_coloring G coloring"
  shows "\<exists>n. cost G coloring = Inr n \<and>
           n = int (length (filter (\<lambda>e. map_of coloring (fst e) = map_of coloring (snd e)) (edges G))) \<and>
           0 \<le> n \<and> (n = 0 \<longleftrightarrow> proper G coloring)"
proof -
  let ?same = "\<lambda>e. map_of coloring (fst e) = map_of coloring (snd e)"
  from assms have "\<forall>e \<in> set (edges G). fst e \<in> fst ` set coloring \<and> snd e \<in> fst ` set coloring"
    unfolding wf_graph_def total_coloring_def by blast
  then have c: "cost G coloring = Inr (int (length (filter ?same (edges G))))"
    unfolding cost_def by (rule cost_edges_count)
  have "(length (filter ?same (edges G)) = 0) \<longleftrightarrow> proper G coloring"
    unfolding proper_def by (simp add: filter_empty_conv)
  with c show ?thesis by simp
qed

theorem cost_counts_conflicts_witness:
  "wf_graph path3 \<and> total_coloring path3 path3_coloring \<and>
   cost path3 path3_coloring = Inr 1 \<and> \<not> proper path3 path3_coloring"
proof -
  have w: "wf_graph path3" by (simp add: wf_graph_def path3_def)
  have t: "total_coloring path3 path3_coloring"
    by (simp add: total_coloring_def path3_def path3_coloring_def)
  have e: "length (filter (\<lambda>e. map_of path3_coloring (fst e) = map_of path3_coloring (snd e))
             (edges path3)) = 1"
    by (simp add: path3_def path3_coloring_def)
  from cost_counts_conflicts [OF w t] e
  have "cost path3 path3_coloring = Inr 1 \<and> \<not> proper path3 path3_coloring"
    by auto
  with w t show ?thesis by simp
qed

section \<open>The single move\<close>

lemma random_choice_in:
  "xs \<noteq> [] \<Longrightarrow> \<exists>x r'. random_choice xs r = Inr (x, r') \<and> x \<in> set xs"
  by (simp add: random_choice_def)

lemma random_randint_range:
  "a \<le> b \<Longrightarrow> \<exists>c r'. random_randint a b r = Inr (c, r') \<and> a \<le> c \<and> c \<le> b"
proof -
  assume ab: "a \<le> b"
  then have pos: "0 < nat (b - a + 1)" by simp
  have "shd (index_draws r) mod nat (b - a + 1) < nat (b - a + 1)"
    using pos by (rule mod_less_divisor)
  then have "int (shd (index_draws r) mod nat (b - a + 1)) \<le> b - a" using ab by linarith
  then show ?thesis using ab by (simp add: random_randint_def)
qed

lemma neighbor_obj_value:
  "neighbor_obj h a k r =
     (case neighbor (h ! a) k r of Inl e \<Rightarrow> Inl e
      | Inr (c, r') \<Rightarrow> Inr (h @ [c], length h, r'))"
  by (simp add: neighbor_obj_def neighbor_def dict_copy_def dict_setitem_def
      split: sum.splits prod.splits)

lemma neighbor_result:
  assumes "coloring \<noteq> []" and "1 \<le> k"
  shows "\<exists>node c r'. neighbor coloring k r = Inr (AList.update node c coloring, r') \<and>
           node \<in> fst ` set coloring \<and> 0 \<le> c \<and> c < k"
proof -
  from assms(1) have "map fst coloring \<noteq> []" by simp
  from random_choice_in [OF this, of r] obtain node r1
    where ch: "random_choice (map fst coloring) r = Inr (node, r1)" and nd: "node \<in> fst ` set coloring"
    by auto
  from assms(2) have "0 \<le> k - 1" by simp
  from random_randint_range [OF this, of r1] obtain c r2
    where ri: "random_randint 0 (k - 1) r1 = Inr (c, r2)" and c: "0 \<le> c" "c \<le> k - 1"
    by auto
  have "neighbor coloring k r = Inr (AList.update node c coloring, r2)"
    by (simp add: neighbor_def ch ri)
  with nd c show ?thesis by auto
qed

text \<open>
  Claim C3. For a non-empty colouring and at least one colour, \<open>neighbor\<close> returns a
  new dictionary object with the keys of its input, in the same order; there is a node
  whose new colour lies in \<open>[0, n_colors)\<close> and every other node keeps its colour;
  every object that was in the store before the call, the input among them, is
  unchanged.
\<close>

theorem neighbor_single_move:
  assumes "coloring < length h" and "h ! coloring \<noteq> []" and "1 \<le> n_colors"
  shows "\<exists>h' new r'. neighbor_obj h coloring n_colors r = Inr (h', new, r') \<and>
           take (length h) h' = h \<and> new = length h \<and> length h' = Suc (length h) \<and>
           map fst (h' ! new) = map fst (h ! coloring) \<and>
           (\<exists>node c. node \<in> fst ` set (h ! coloring) \<and> 0 \<le> c \<and> c < n_colors \<and>
              map_of (h' ! new) node = Some c \<and>
              (\<forall>x. x \<noteq> node \<longrightarrow> map_of (h' ! new) x = map_of (h ! coloring) x))"
proof -
  from neighbor_result [OF assms(2,3), of r] obtain node c r'
    where n: "neighbor (h ! coloring) n_colors r = Inr (AList.update node c (h ! coloring), r')"
      and nd: "node \<in> fst ` set (h ! coloring)" and c: "0 \<le> c" "c < n_colors"
    by blast
  let ?new = "AList.update node c (h ! coloring)"
  have v: "neighbor_obj h coloring n_colors r = Inr (h @ [?new], length h, r')"
    by (simp add: neighbor_obj_value n)
  have k: "map fst ?new = map fst (h ! coloring)"
    using nd by (simp add: update_keys)
  have m: "map_of ?new node = Some c" "\<forall>x. x \<noteq> node \<longrightarrow> map_of ?new x = map_of (h ! coloring) x"
    by (simp_all add: update_conv')
  show ?thesis using v k m nd c by auto
qed

theorem neighbor_single_move_witness:
  "(0::nat) < length store1 \<and> store1 ! 0 \<noteq> [] \<and> (1::int) \<le> 2 \<and>
   neighbor_obj store1 0 2 rng_pick =
     Inr ([[(0, 0), (1, 0)], [(0, 0), (1, 1)]], 1, rng_zero) \<and>
   take (length store1) [[(0, 0), (1, 0)], [(0, 0), (1, 1)]] = store1"
proof -
  have a: "(0::nat) < length store1" and b: "store1 ! 0 \<noteq> []" and c: "(1::int) \<le> 2"
    by (simp_all add: store1_def)
  have e: "neighbor_obj store1 0 2 rng_pick =
     Inr ([[(0, 0), (1, 0)], [(0, 0), (1, 1)]], 1, rng_zero)"
    by (simp add: neighbor_obj_def dict_copy_def dict_setitem_def random_choice_def
        random_randint_def store1_def rng_pick_def rng_zero_def)
  from neighbor_single_move [OF a b c, of rng_pick] e
  have "take (length store1) [[(0, 0), (1, 0)], [(0, 0), (1, 1)]] = store1" by simp
  with a b c e show ?thesis by simp
qed

section \<open>One annealing run\<close>

lemma sa_step_Inr:
  assumes "sa_step G k cr (s, r) = Inr (s', r')"
  obtains new_solution r1 new_cost acc where
    "neighbor (current_solution s) k r = Inr (new_solution, r1)"
    "cost G new_solution = Inr new_cost"
    "accept (current_cost s) new_cost (temperature s) r1 = Inr (acc, r')"
    "s' = (if acc then take_candidate s new_solution new_cost else s)
            \<lparr>cost_history := cost_history s @
                [current_cost (if acc then take_candidate s new_solution new_cost else s)],
             temperature := temperature s * cr\<rparr>"
  using assms
  by (auto simp: sa_step_def Let_def take_candidate_def split: sum.splits prod.splits if_splits)

lemma take_candidate_fields:
  "current_solution (take_candidate s sol c) = sol"
  "current_cost (take_candidate s sol c) = c"
  "cost_history (take_candidate s sol c) = cost_history s"
  "temperature (take_candidate s sol c) = temperature s"
  "best_cost (take_candidate s sol c) = min c (best_cost s)"
  "best_solution (take_candidate s sol c) = (if c < best_cost s then sol else best_solution s)"
  by (simp_all add: take_candidate_def Let_def)

lemma sa_step_history:
  assumes "sa_step G k cr (s, r) = Inr (s', r')"
  shows "cost_history s' = cost_history s @ [current_cost s']"
  using assms by (elim sa_step_Inr) (simp add: take_candidate_fields)

lemma sa_step_temperature:
  assumes "sa_step G k cr (s, r) = Inr (s', r')"
  shows "temperature s' = temperature s * cr"
  using assms by (elim sa_step_Inr) simp

lemma sa_step_current:
  assumes "sa_step G k cr (s, r) = Inr (s', r')"
    and "cost G (current_solution s) = Inr (current_cost s)"
  shows "cost G (current_solution s') = Inr (current_cost s')"
  using assms by (elim sa_step_Inr) (simp add: take_candidate_fields)

lemma sa_step_best:
  assumes "sa_step G k cr (s, r) = Inr (s', r')"
  shows "best_cost s' < best_cost s \<and> best_cost s' = current_cost s' \<and>
           best_solution s' = current_solution s' \<or>
         best_cost s' = best_cost s \<and> best_solution s' = best_solution s"
  using assms by (elim sa_step_Inr) (auto simp: take_candidate_fields)

lemma sa_loop_history:
  "sa_loop G k cr n (s, r) = Inr (s', r') \<Longrightarrow>
     length (cost_history s') = length (cost_history s) + n \<and>
     take (length (cost_history s)) (cost_history s') = cost_history s \<and>
     (0 < n \<longrightarrow> last (cost_history s') = current_cost s')"
proof (induction n arbitrary: s r)
  case 0
  then show ?case by simp
next
  case (Suc n)
  from Suc.prems obtain s1 r1 where st: "sa_step G k cr (s, r) = Inr (s1, r1)"
    and lp: "sa_loop G k cr n (s1, r1) = Inr (s', r')"
    by (auto split: sum.splits)
  note h = sa_step_history [OF st]
  from Suc.IH [OF lp] have len: "length (cost_history s') = length (cost_history s1) + n"
    and tk: "take (length (cost_history s1)) (cost_history s') = cost_history s1"
    and ls: "0 < n \<longrightarrow> last (cost_history s') = current_cost s'" by simp_all
  have "take (length (cost_history s)) (cost_history s') =
          take (length (cost_history s)) (take (length (cost_history s1)) (cost_history s'))"
    by (simp add: h min_def)
  also have "\<dots> = cost_history s" by (simp add: tk) (simp add: h)
  finally have t: "take (length (cost_history s)) (cost_history s') = cost_history s" .
  have l: "last (cost_history s') = current_cost s'"
  proof (cases n)
    case 0
    with lp have "s' = s1" by simp
    with h show ?thesis by simp
  next
    case (Suc m)
    with ls show ?thesis by simp
  qed
  from len h t l show ?case by simp
qed

lemma sa_loop_current:
  "sa_loop G k cr n (s, r) = Inr (s', r') \<Longrightarrow>
   cost G (current_solution s) = Inr (current_cost s) \<Longrightarrow>
   cost G (current_solution s') = Inr (current_cost s')"
proof (induction n arbitrary: s r)
  case 0
  then show ?case by simp
next
  case (Suc n)
  from Suc.prems(1) obtain s1 r1 where st: "sa_step G k cr (s, r) = Inr (s1, r1)"
    and lp: "sa_loop G k cr n (s1, r1) = Inr (s', r')"
    by (auto split: sum.splits)
  from Suc.IH [OF lp sa_step_current [OF st Suc.prems(2)]] show ?case .
qed

lemma sa_loop_best:
  "sa_loop G k cr n (s, r) = Inr (s', r') \<Longrightarrow> best_cost s' \<le> best_cost s"
proof (induction n arbitrary: s r)
  case 0
  then show ?case by simp
next
  case (Suc n)
  from Suc.prems(1) obtain s1 r1 where st: "sa_step G k cr (s, r) = Inr (s1, r1)"
    and lp: "sa_loop G k cr n (s1, r1) = Inr (s', r')"
    by (auto split: sum.splits)
  from sa_step_best [OF st] have "best_cost s1 \<le> best_cost s" by auto
  with Suc.IH [OF lp] show ?case by simp
qed

lemma sa_loop_temperature:
  "sa_loop G k cr n (s, r) = Inr (s', r') \<Longrightarrow> temperature s' = temperature s * cr ^ n"
proof (induction n arbitrary: s r)
  case 0
  then show ?case by simp
next
  case (Suc n)
  from Suc.prems(1) obtain s1 r1 where st: "sa_step G k cr (s, r) = Inr (s1, r1)"
    and lp: "sa_loop G k cr n (s1, r1) = Inr (s', r')"
    by (auto split: sum.splits)
  from sa_step_temperature [OF st] Suc.IH [OF lp] show ?case by simp
qed

lemma sa_init_Inr:
  assumes "sa_init G k T r = Inr (s, r1)"
  obtains sol c where "initial_solution G k r = Inr (sol, r1)" "cost G sol = Inr c"
    "s = \<lparr>current_solution = sol, current_cost = c, best_solution = sol,
           best_cost = c, temperature = T, cost_history = [c]\<rparr>"
  using assms by (auto simp: sa_init_def split: sum.splits prod.splits)

lemma simulated_annealing_Inr:
  assumes "simulated_annealing G k T cr n r = Inr ((best, bc, history), r')"
  obtains s0 r0 s where "sa_init G k T r = Inr (s0, r0)"
    "sa_loop G k cr (nat n) (s0, r0) = Inr (s, r')"
    "sa_run G k T cr n r = Inr (s, r')"
    "best = best_solution s" "bc = best_cost s" "history = cost_history s"
  using assms by (auto simp: simulated_annealing_def sa_run_def split: sum.splits prod.splits)

text \<open>Concrete runs, evaluated.\<close>

lemmas run_defs = simulated_annealing_def sa_run_def sa_init_def initial_solution_def
  random_randint_def cost_def getitem_def sa_step_def neighbor_def random_choice_def
  accept_def random_random_def math_exp_def exp_max_def take_candidate_def

lemma run_worsen:
  "sa_run one_edge 2 10 (1/2) 1 rng_worsen =
     Inr (\<lparr>current_solution = [(0, 1), (1, 1)], current_cost = 1,
           best_solution = [(0, 0), (1, 1)], best_cost = 0,
           temperature = 5, cost_history = [0, 1]\<rparr>, rng_zero)"
  by (simp add: run_defs one_edge_def rng_worsen_def rng_zero_def)

lemma run_improve:
  "sa_run one_edge 2 10 (1/2) 1 rng_improve =
     Inr (\<lparr>current_solution = [(0, 0), (1, 1)], current_cost = 0,
           best_solution = [(0, 0), (1, 1)], best_cost = 0,
           temperature = 5, cost_history = [1, 0]\<rparr>, rng_zero)"
  by (simp add: run_defs one_edge_def rng_improve_def rng_zero_def)

lemma step_improve:
  "sa_step one_edge 2 (1/2) (state_conflict, rng_pick) =
     Inr (state_solved, rng_zero)"
  by (simp add: run_defs one_edge_def state_conflict_def state_solved_def rng_pick_def rng_zero_def)

lemma loop_improve:
  "sa_loop one_edge 2 (1/2) 1 (state_conflict, rng_pick) =
     Inr (state_solved, rng_zero)"
  by (simp add: step_improve)

lemma sa_improve:
  "simulated_annealing one_edge 2 10 (1/2) 1 rng_improve =
     Inr (([(0, 0), (1, 1)], 0, [1, 0]), rng_zero)"
  by (simp add: simulated_annealing_def run_improve)



text \<open>
  Claim C4. When a run with \<open>n_iterations \<ge> 0\<close> returns, \<open>s\<close> being its variables at
  the \<^verbatim>\<open>return\<close>: the returned history has \<open>n_iterations + 1\<close> entries, its first
  entry is the cost of the initial random colouring, and its last entry is the cost of
  the current solution at the end. The last entry need not be the returned best cost:
  some run returns with the two different.
\<close>

theorem cost_history_shape:
  assumes "0 \<le> n_iterations" and "sa_run G k T cr n_iterations r = Inr (s, r')"
  shows "simulated_annealing G k T cr n_iterations r =
           Inr ((best_solution s, best_cost s, cost_history s), r') \<and>
         int (length (cost_history s)) = n_iterations + 1 \<and>
         (\<exists>sol r1. initial_solution G k r = Inr (sol, r1) \<and> cost G sol = Inr (hd (cost_history s))) \<and>
         last (cost_history s) = current_cost s \<and>
         cost G (current_solution s) = Inr (current_cost s) \<and>
         (\<exists>G1 k1 T1 cr1 n1 r1 s1 r1'. 0 \<le> n1 \<and> sa_run G1 k1 T1 cr1 n1 r1 = Inr (s1, r1') \<and>
            last (cost_history s1) \<noteq> best_cost s1)"
proof -
  from assms(2) obtain s0 r0 where i: "sa_init G k T r = Inr (s0, r0)"
    and l: "sa_loop G k cr (nat n_iterations) (s0, r0) = Inr (s, r')"
    by (auto simp: sa_run_def split: sum.splits)
  from i obtain sol c where ini: "initial_solution G k r = Inr (sol, r0)" and c: "cost G sol = Inr c"
    and s0: "s0 = \<lparr>current_solution = sol, current_cost = c, best_solution = sol,
           best_cost = c, temperature = T, cost_history = [c]\<rparr>"
    by (rule sa_init_Inr)
  from sa_loop_history [OF l] s0
  have len: "length (cost_history s) = 1 + nat n_iterations"
    and tk: "take 1 (cost_history s) = [c]"
    and ls: "0 < nat n_iterations \<longrightarrow> last (cost_history s) = current_cost s"
    by simp_all
  from tk have hd: "hd (cost_history s) = c"
    by (metis hd_take list.sel(1) zero_less_one)
  have last: "last (cost_history s) = current_cost s"
  proof (cases "nat n_iterations")
    case 0
    with l have "s = s0" by simp
    with s0 show ?thesis by simp
  next
    case (Suc m)
    with ls show ?thesis by simp
  qed
  have cur: "cost G (current_solution s) = Inr (current_cost s)"
    by (rule sa_loop_current [OF l]) (simp add: s0 c)
  have ex: "\<exists>G1 k1 T1 cr1 n1 r1 s1 r1'. 0 \<le> n1 \<and> sa_run G1 k1 T1 cr1 n1 r1 = Inr (s1, r1') \<and>
            last (cost_history s1) \<noteq> best_cost s1"
    using run_worsen
    by (intro exI [of _ one_edge] exI [of _ "2::int"] exI [of _ "10::real"] exI [of _ "1/2::real"]
        exI [of _ "1::int"] exI [of _ rng_worsen] exI [of _ rng_zero]
        exI [of _ "\<lparr>current_solution = [(0, 1), (1, 1)], current_cost = 1,
           best_solution = [(0, 0), (1, 1)], best_cost = 0,
           temperature = 5, cost_history = [0, 1]\<rparr>"]) simp
  have sa: "simulated_annealing G k T cr n_iterations r =
           Inr ((best_solution s, best_cost s, cost_history s), r')"
    by (simp add: simulated_annealing_def assms(2))
  from sa len assms(1) ini c hd last cur ex show ?thesis by simp
qed

theorem cost_history_shape_witness:
  "(0::int) \<le> 1 \<and>
   simulated_annealing one_edge 2 10 (1/2) 1 rng_worsen =
     Inr (([(0, 0), (1, 1)], 0, [0, 1]), rng_zero) \<and>
   int (length [0, 1 :: int]) = 1 + 1 \<and>
   cost one_edge [(0, 1), (1, 1)] = Inr (last [0, 1])"
proof -
  have n: "(0::int) \<le> 1" by simp
  from cost_history_shape [OF n run_worsen] show ?thesis by simp
qed

text \<open>
  Claim C5. In one iteration the best cost does not increase, and the best solution and
  cost either stay as they are or are replaced by the current ones, whose cost is then
  strictly below the former best cost. Over any number of iterations the best cost does
  not increase, and the best cost a run returns is at most the cost of its initial
  colouring.
\<close>

theorem best_cost_non_increasing:
  "(sa_step G k cr (s, r) = Inr (s', r') \<longrightarrow>
      best_cost s' \<le> best_cost s \<and>
      (best_cost s' < best_cost s \<and> best_cost s' = current_cost s' \<and>
         best_solution s' = current_solution s' \<or>
       best_cost s' = best_cost s \<and> best_solution s' = best_solution s)) \<and>
   (sa_loop G k cr n (s, r) = Inr (s2, r2) \<longrightarrow> best_cost s2 \<le> best_cost s) \<and>
   (simulated_annealing G k T cr n_iterations r = Inr ((best, bc, history), r3) \<longrightarrow>
      (\<exists>sol r1 c. initial_solution G k r = Inr (sol, r1) \<and> cost G sol = Inr c \<and> bc \<le> c))"
proof (intro conjI impI)
  assume st: "sa_step G k cr (s, r) = Inr (s', r')"
  from sa_step_best [OF st]
  show "best_cost s' < best_cost s \<and> best_cost s' = current_cost s' \<and>
         best_solution s' = current_solution s' \<or>
       best_cost s' = best_cost s \<and> best_solution s' = best_solution s" .
  then show "best_cost s' \<le> best_cost s" by auto
next
  assume "sa_loop G k cr n (s, r) = Inr (s2, r2)"
  then show "best_cost s2 \<le> best_cost s" by (rule sa_loop_best)
next
  assume "simulated_annealing G k T cr n_iterations r = Inr ((best, bc, history), r3)"
  then obtain s0 r0 sf where i: "sa_init G k T r = Inr (s0, r0)"
    and l: "sa_loop G k cr (nat n_iterations) (s0, r0) = Inr (sf, r3)"
    and bc: "bc = best_cost sf"
    by (rule simulated_annealing_Inr)
  from i obtain sol c where ini: "initial_solution G k r = Inr (sol, r0)" and c: "cost G sol = Inr c"
    and s0: "s0 = \<lparr>current_solution = sol, current_cost = c, best_solution = sol,
           best_cost = c, temperature = T, cost_history = [c]\<rparr>"
    by (rule sa_init_Inr)
  from sa_loop_best [OF l] s0 bc have "bc \<le> c" by simp
  with ini c show "\<exists>sol r1 c. initial_solution G k r = Inr (sol, r1) \<and> cost G sol = Inr c \<and> bc \<le> c"
    by blast
qed

theorem best_cost_non_increasing_witness:
  "sa_step one_edge 2 (1/2) (state_conflict, rng_pick) = Inr (state_solved, rng_zero) \<and>
   sa_loop one_edge 2 (1/2) 1 (state_conflict, rng_pick) = Inr (state_solved, rng_zero) \<and>
   simulated_annealing one_edge 2 10 (1/2) 1 rng_improve =
     Inr (([(0, 0), (1, 1)], 0, [1, 0]), rng_zero) \<and>
   best_cost state_solved \<le> best_cost state_conflict \<and>
   (\<exists>sol r1 c. initial_solution one_edge 2 rng_improve = Inr (sol, r1) \<and>
      cost one_edge sol = Inr c \<and> 0 \<le> c)"
proof -
  have a: "sa_step one_edge 2 (1/2) (state_conflict, rng_pick) = Inr (state_solved, rng_zero)"
    by (rule step_improve)
  have b: "sa_loop one_edge 2 (1/2) 1 (state_conflict, rng_pick) = Inr (state_solved, rng_zero)"
    by (rule loop_improve)
  note c = sa_improve
  from best_cost_non_increasing [where G = one_edge and k = 2 and cr = "1/2"
      and s = state_conflict and r = rng_pick and s' = state_solved and r' = rng_zero
      and n = 1 and ?s2.0 = state_solved and ?r2.0 = rng_zero]
    a b
  have "best_cost state_solved \<le> best_cost state_conflict" by blast
  moreover
  from best_cost_non_increasing [where G = one_edge and k = 2 and cr = "1/2"
      and r = rng_improve and T = 10 and n_iterations = 1 and best = "[(0, 0), (1, 1)]"
      and bc = 0 and history = "[1, 0]" and ?r3.0 = rng_zero] c
  have "\<exists>sol r1 c. initial_solution one_edge 2 rng_improve = Inr (sol, r1) \<and>
      cost one_edge sol = Inr c \<and> 0 \<le> c" by blast
  ultimately show ?thesis using a b c by blast
qed

lemma accept_positive:
  assumes "0 < temp"
  shows "accept cur new temp r =
           Inr (new < cur \<or> shd (unit_draws r) < exp (real_of_int (cur - new) / temp),
                if new < cur then r else snd (random_random r))"
proof (cases "new < cur")
  case True
  then show ?thesis by (simp add: accept_def)
next
  case False
  then have "real_of_int (cur - new) / temp \<le> 0"
    using assms by (simp add: divide_nonpos_pos)
  moreover have "0 < exp_max" by (simp add: exp_max_def)
  ultimately have "\<not> exp_max < real_of_int (cur - new) / temp" by linarith
  with False assms show ?thesis
    by (simp add: accept_def math_exp_def random_random_def)
qed



text \<open>
  A run returns when the graph has a node and the inputs are those the module expects:
  at least one colour, a positive temperature and a positive cooling rate.
\<close>

lemma init_loop_returns:
  assumes "1 \<le> k"
  shows "\<exists>sol r'. init_loop ns k acc r = Inr (sol, r') \<and> fst ` set sol = set ns \<union> fst ` set acc"
proof (induction ns arbitrary: acc r)
  case Nil
  then show ?case by simp
next
  case (Cons node ns)
  from assms have "0 \<le> k - 1" by simp
  from random_randint_range [OF this, of r] obtain c r1
    where ri: "random_randint 0 (k - 1) r = Inr (c, r1)" by blast
  from Cons.IH [of "AList.update node c acc" r1] obtain sol r'
    where "init_loop ns k (AList.update node c acc) r1 = Inr (sol, r')"
      and "fst ` set sol = set ns \<union> fst ` set (AList.update node c acc)"
    by blast
  then show ?case by (simp add: ri dom_update)
qed

lemma cost_returns:
  assumes "wf_graph G" and "set (nodes G) \<subseteq> fst ` set coloring"
  shows "\<exists>c. cost G coloring = Inr c"
proof -
  from assms have "\<forall>e \<in> set (edges G). fst e \<in> fst ` set coloring \<and> snd e \<in> fst ` set coloring"
    unfolding wf_graph_def by blast
  from cost_edges_count [OF this] show ?thesis by (simp add: cost_def)
qed

lemma sa_init_returns:
  assumes "wf_graph G" and "1 \<le> k"
  shows "\<exists>s r'. sa_init G k T r = Inr (s, r') \<and>
           fst ` set (current_solution s) = set (nodes G) \<and> temperature s = T"
proof -
  from init_loop_returns [OF assms(2), of "nodes G" "[]" r] obtain sol r'
    where i: "initial_solution G k r = Inr (sol, r')" and d: "fst ` set sol = set (nodes G)"
    by (auto simp: initial_solution_def)
  from cost_returns [OF assms(1), of sol] d obtain c where c: "cost G sol = Inr c" by auto
  show ?thesis by (simp add: sa_init_def i c d)
qed

lemma sa_step_returns:
  assumes "wf_graph G" and "nodes G \<noteq> []" and "1 \<le> k" and "0 < cr"
    and "fst ` set (current_solution s) = set (nodes G)" and "0 < temperature s"
  shows "\<exists>s' r'. sa_step G k cr (s, r) = Inr (s', r') \<and>
           fst ` set (current_solution s') = set (nodes G) \<and> 0 < temperature s'"
proof -
  from assms(2,5) have ne: "current_solution s \<noteq> []" by auto
  from neighbor_result [OF ne assms(3), of r] obtain node c r1
    where nb: "neighbor (current_solution s) k r = Inr (AList.update node c (current_solution s), r1)"
      and nd: "node \<in> fst ` set (current_solution s)"
    by blast
  let ?cand = "AList.update node c (current_solution s)"
  from nd have d: "fst ` set ?cand = set (nodes G)" by (auto simp: dom_update assms(5))
  from cost_returns [OF assms(1), of ?cand] d obtain cc where cc: "cost G ?cand = Inr cc" by auto
  note acc = accept_positive [OF assms(6), of "current_cost s" cc r1]
  let ?A = "cc < current_cost s \<or>
     shd (unit_draws r1) < exp (real_of_int (current_cost s - cc) / temperature s)"
  let ?r' = "if cc < current_cost s then r1 else snd (random_random r1)"
  let ?s1 = "if ?A then take_candidate s ?cand cc else s"
  let ?s' = "?s1\<lparr>cost_history := cost_history ?s1 @ [current_cost ?s1],
                  temperature := temperature ?s1 * cr\<rparr>"
  have st: "sa_step G k cr (s, r) = Inr (?s', ?r')"
    by (simp add: sa_step_def nb cc acc Let_def)
  have "fst ` set (current_solution ?s') = set (nodes G)"
    using d assms(5) by (simp add: take_candidate_fields)
  moreover have "0 < temperature ?s'"
    using assms(4,6) by (simp add: take_candidate_fields)
  ultimately show ?thesis using st by blast
qed

lemma sa_loop_returns:
  assumes "wf_graph G" and "nodes G \<noteq> []" and "1 \<le> k" and "0 < cr"
  shows "fst ` set (current_solution s) = set (nodes G) \<Longrightarrow> 0 < temperature s \<Longrightarrow>
         \<exists>s' r'. sa_loop G k cr n (s, r) = Inr (s', r')"
proof (induction n arbitrary: s r)
  case 0
  then show ?case by simp
next
  case (Suc n)
  from sa_step_returns [OF assms Suc.prems, of r] obtain s1 r1
    where st: "sa_step G k cr (s, r) = Inr (s1, r1)"
      and d: "fst ` set (current_solution s1) = set (nodes G)" and t: "0 < temperature s1"
    by blast
  from Suc.IH [OF d t, of r1] show ?case by (simp add: st)
qed

lemma sa_run_returns:
  assumes "wf_graph G" and "nodes G \<noteq> []" and "1 \<le> k" and "0 < T" and "0 < cr"
  shows "\<exists>s r'. sa_run G k T cr n r = Inr (s, r')"
proof -
  from sa_init_returns [OF assms(1,3), of T r] obtain s0 r0
    where i: "sa_init G k T r = Inr (s0, r0)"
      and d: "fst ` set (current_solution s0) = set (nodes G)" and t: "temperature s0 = T"
    by blast
  from t assms(4) have "0 < temperature s0" by simp
  from sa_loop_returns [OF assms(1,2,3,5) d this, of "nat n" r0] show ?thesis
    by (simp add: sa_run_def i)
qed









section \<open>The search over the number of colours\<close>

lemma attempts_fail_Suc:
  assumes "attempts_fail G T cr ni (Suc m) k r = Some rm"
  obtains best c history r1
  where "simulated_annealing G k T cr ni r = Inr ((best, c, history), r1)"
    and "c \<noteq> 0" and "attempts_fail G T cr ni m (k + 1) r1 = Some rm"
proof (cases "simulated_annealing G k T cr ni r")
  case (Inl e)
  with assms show ?thesis by simp
next
  case (Inr res)
  obtain best c history r1 where res: "res = ((best, c, history), r1)"
    by (cases res) auto
  with assms Inr have "c \<noteq> 0" and "attempts_fail G T cr ni m (k + 1) r1 = Some rm"
    by (simp_all split: if_splits)
  with Inr res that show ?thesis by blast
qed

lemma foc_loop_after_failures:
  "attempts_fail G T cr ni m k r = Some rm \<Longrightarrow>
   foc_loop G T cr ni k r = foc_loop G T cr ni (k + int m) rm"
proof (induction m arbitrary: k r)
  case 0
  then show ?case by simp
next
  case (Suc m)
  from Suc.prems obtain best c history r1
    where sa: "simulated_annealing G k T cr ni r = Inr ((best, c, history), r1)"
      and c: "c \<noteq> 0" and rest: "attempts_fail G T cr ni m (k + 1) r1 = Some rm"
    by (rule attempts_fail_Suc)
  have "foc_loop G T cr ni k r = foc_loop G T cr ni (k + 1) r1"
    by (subst foc_loop.simps) (simp add: sa c)
  also have "\<dots> = foc_loop G T cr ni (k + 1 + int m) rm" by (rule Suc.IH [OF rest])
  also have "k + 1 + int m = k + int (Suc m)" by simp
  finally show ?case .
qed

lemma foc_loop_success:
  "simulated_annealing G k T cr ni r = Inr ((best, 0, history), r') \<Longrightarrow>
   foc_loop G T cr ni k r = Some (Inr ((best, k, history), r'))"
  by (subst foc_loop.simps) simp

lemma foc_loop_error:
  "simulated_annealing G k T cr ni r = Inl e \<Longrightarrow> foc_loop G T cr ni k r = Some (Inl e)"
  by (subst foc_loop.simps) simp

lemma foc_loop_returns:
  assumes "foc_loop G T cr ni k r = Some y"
  shows "\<exists>m rm. attempts_fail G T cr ni m k r = Some rm \<and>
     (case simulated_annealing G (k + int m) T cr ni rm of
        Inl e \<Rightarrow> y = Inl e
      | Inr ((best, c, history), r') \<Rightarrow> c = 0 \<and> y = Inr ((best, k + int m, history), r'))"
proof -
  let ?P = "\<lambda>G T cr ni k r y. \<exists>m rm. attempts_fail G T cr ni m k r = Some rm \<and>
     (case simulated_annealing G (k + int m) T cr ni rm of
        Inl e \<Rightarrow> y = Inl e
      | Inr ((best, c, history), r') \<Rightarrow> c = 0 \<and> y = Inr ((best, k + int m, history), r'))"
  have "?P G T cr ni k r y"
  proof (rule foc_loop.raw_induct [where P = ?P, OF _ assms])
    fix foc G T cr ni k r y
    assume IH: "\<And>G T cr ni k r y. foc G T cr ni k r = Some y \<Longrightarrow> ?P G T cr ni k r y"
      and body: "(case simulated_annealing G k T cr ni r of
        Inl e \<Rightarrow> Some (Inl e)
      | Inr ((best, c, history), r') \<Rightarrow>
         (if c = 0 then Some (Inr ((best, k, history), r'))
          else foc G T cr ni (k + 1) r')) = Some y"
    show "?P G T cr ni k r y"
    proof (cases "simulated_annealing G k T cr ni r")
      case (Inl e)
      with body have "y = Inl e" by simp
      with Inl have "attempts_fail G T cr ni 0 k r = Some r \<and>
       (case simulated_annealing G (k + int 0) T cr ni r of
          Inl e \<Rightarrow> y = Inl e
        | Inr ((best, c, history), r') \<Rightarrow> c = 0 \<and> y = Inr ((best, k + int 0, history), r'))"
        by simp
      then show ?thesis by (intro exI)
    next
      case (Inr res)
      obtain best c history r1 where res: "res = ((best, c, history), r1)"
        by (cases res) auto
      show ?thesis
      proof (cases "c = 0")
        case True
        with body Inr res have "y = Inr ((best, k, history), r1)" by simp
        with Inr res True have "attempts_fail G T cr ni 0 k r = Some r \<and>
         (case simulated_annealing G (k + int 0) T cr ni r of
            Inl e \<Rightarrow> y = Inl e
          | Inr ((best, c, history), r') \<Rightarrow> c = 0 \<and> y = Inr ((best, k + int 0, history), r'))"
          by simp
        then show ?thesis by (intro exI)
      next
        case False
        with body Inr res have "foc G T cr ni (k + 1) r1 = Some y" by simp
        from IH [OF this] obtain m rm where
          a: "attempts_fail G T cr ni m (k + 1) r1 = Some rm" and
          b: "(case simulated_annealing G (k + 1 + int m) T cr ni rm of
                Inl e \<Rightarrow> y = Inl e
              | Inr ((best, c, history), r') \<Rightarrow> c = 0 \<and> y = Inr ((best, k + 1 + int m, history), r'))"
          by blast
        from a Inr res False have a': "attempts_fail G T cr ni (Suc m) k r = Some rm" by simp
        have e: "k + 1 + int m = k + int (Suc m)" by simp
        from b have b': "(case simulated_annealing G (k + int (Suc m)) T cr ni rm of
                Inl e \<Rightarrow> y = Inl e
              | Inr ((best, c, history), r') \<Rightarrow> c = 0 \<and> y = Inr ((best, k + int (Suc m), history), r'))"
          unfolding e .
        from a' b' show ?thesis by (intro exI conjI)
      qed
    qed
  qed
  then show ?thesis .
qed

lemma foc_loop_Some_iff:
  "foc_loop G T cr ni k r = Some y \<longleftrightarrow>
   (\<exists>m rm. attempts_fail G T cr ni m k r = Some rm \<and>
     (case simulated_annealing G (k + int m) T cr ni rm of
        Inl e \<Rightarrow> y = Inl e
      | Inr ((best, c, history), r') \<Rightarrow> c = 0 \<and> y = Inr ((best, k + int m, history), r')))"
proof
  assume "foc_loop G T cr ni k r = Some y"
  then show "\<exists>m rm. attempts_fail G T cr ni m k r = Some rm \<and>
     (case simulated_annealing G (k + int m) T cr ni rm of
        Inl e \<Rightarrow> y = Inl e
      | Inr ((best, c, history), r') \<Rightarrow> c = 0 \<and> y = Inr ((best, k + int m, history), r'))"
    by (rule foc_loop_returns)
next
  assume "\<exists>m rm. attempts_fail G T cr ni m k r = Some rm \<and>
     (case simulated_annealing G (k + int m) T cr ni rm of
        Inl e \<Rightarrow> y = Inl e
      | Inr ((best, c, history), r') \<Rightarrow> c = 0 \<and> y = Inr ((best, k + int m, history), r'))"
  then show "foc_loop G T cr ni k r = Some y"
  proof (elim exE conjE)
    fix m rm
    assume a: "attempts_fail G T cr ni m k r = Some rm"
      and b: "(case simulated_annealing G (k + int m) T cr ni rm of
        Inl e \<Rightarrow> y = Inl e
      | Inr ((best, c, history), r') \<Rightarrow> c = 0 \<and> y = Inr ((best, k + int m, history), r'))"
    note l = foc_loop_after_failures [OF a]
    show ?thesis
    proof (cases "simulated_annealing G (k + int m) T cr ni rm")
      case (Inl e)
      with b have "y = Inl e" by simp
      with foc_loop_error [OF Inl] l show ?thesis by simp
    next
      case (Inr res)
      obtain best c history r1 where res: "res = ((best, c, history), r1)"
        by (cases res) auto
      with b Inr have c: "c = 0" and y: "y = Inr ((best, k + int m, history), r1)" by simp_all
      from Inr res c have "simulated_annealing G (k + int m) T cr ni rm = Inr ((best, 0, history), r1)"
        by simp
      from foc_loop_success [OF this] l y show ?thesis by simp
    qed
  qed
qed

lemma attempts_fail_cong:
  assumes "\<And>k r. simulated_annealing G k T cr ni r = simulated_annealing G k T' cr' ni' r"
  shows "attempts_fail G T cr ni m k r = attempts_fail G T' cr' ni' m k r"
  by (induction m arbitrary: k r) (simp_all add: assms split: sum.splits prod.splits)

lemma foc_loop_cong:
  assumes "\<And>k r. simulated_annealing G k T cr ni r = simulated_annealing G k T' cr' ni' r"
  shows "foc_loop G T cr ni k r = foc_loop G T' cr' ni' k r"
proof -
  have iff: "foc_loop G T cr ni k r = Some y \<longleftrightarrow> foc_loop G T' cr' ni' k r = Some y" for y
  proof -
    have "foc_loop G T cr ni k r = Some y \<longleftrightarrow>
      (\<exists>m rm. attempts_fail G T cr ni m k r = Some rm \<and>
       (case simulated_annealing G (k + int m) T cr ni rm of
          Inl e \<Rightarrow> y = Inl e
        | Inr ((best, c, history), r') \<Rightarrow> c = 0 \<and> y = Inr ((best, k + int m, history), r')))"
      by (rule foc_loop_Some_iff)
    also have "\<dots> \<longleftrightarrow>
      (\<exists>m rm. attempts_fail G T' cr' ni' m k r = Some rm \<and>
       (case simulated_annealing G (k + int m) T' cr' ni' rm of
          Inl e \<Rightarrow> y = Inl e
        | Inr ((best, c, history), r') \<Rightarrow> c = 0 \<and> y = Inr ((best, k + int m, history), r')))"
      by (simp only: attempts_fail_cong [OF assms] assms)
    also have "\<dots> \<longleftrightarrow> foc_loop G T' cr' ni' k r = Some y"
      by (rule foc_loop_Some_iff [symmetric])
    finally show ?thesis .
  qed
  show ?thesis
  proof (cases "foc_loop G T cr ni k r")
    case None
    show ?thesis
    proof (cases "foc_loop G T' cr' ni' k r")
      case None
      with \<open>foc_loop G T cr ni k r = None\<close> show ?thesis by simp
    next
      case (Some y)
      with iff [of y] \<open>foc_loop G T cr ni k r = None\<close> show ?thesis by simp
    qed
  next
    case (Some y)
    with iff [of y] show ?thesis by simp
  qed
qed

lemma sa_one_colour:
  "simulated_annealing one_edge 1 10 (1/2) 0 rng_worsen = Inr (([(0, 0), (1, 0)], 1, [1]), rng_two)"
  by (simp add: run_defs one_edge_def rng_worsen_def rng_two_def)

lemma sa_two_colours:
  "simulated_annealing one_edge 2 10 (1/2) 0 rng_two = Inr (([(0, 0), (1, 1)], 0, [0]), rng_zero)"
  by (simp add: run_defs one_edge_def rng_zero_def rng_two_def)

lemma foc_zero_iterations:
  "find_optimal_coloring one_edge 10 (1/2) 0 rng_worsen =
     Some (Inr (([(0, 0), (1, 1)], 2, [0]), rng_zero))"
proof -
  have a: "attempts_fail one_edge 10 (1/2) 0 1 1 rng_worsen = Some rng_two"
    by (simp add: sa_one_colour)
  have "foc_loop one_edge 10 (1/2) 0 1 rng_worsen = foc_loop one_edge 10 (1/2) 0 (1 + int 1) rng_two"
    by (rule foc_loop_after_failures [OF a])
  also have "\<dots> = Some (Inr (([(0, 0), (1, 1)], 2, [0]), rng_zero))"
    using foc_loop_success [OF sa_two_colours] by simp
  finally show ?thesis by (simp add: find_optimal_coloring_def)
qed

text \<open>
  Claim C1. \<open>find_optimal_coloring\<close> returns \<open>(best, k, history)\<close> exactly when the runs
  with 1, 2, \<dots>, \<open>k - 1\<close> colours, made in this order, each returned a best cost other
  than zero, and the run with \<open>k\<close> colours that follows them returns \<open>best\<close>, best cost
  zero and \<open>history\<close>: the history returned is the one of that last run.
\<close>

theorem find_optimal_coloring_first_success:
  "find_optimal_coloring G T cr ni r = Some (Inr ((best, k, history), r')) \<longleftrightarrow>
     (\<exists>m rm. attempts_fail G T cr ni m 1 r = Some rm \<and> k = 1 + int m \<and>
        simulated_annealing G k T cr ni rm = Inr ((best, 0, history), r'))"
proof
  assume "find_optimal_coloring G T cr ni r = Some (Inr ((best, k, history), r'))"
  then have "foc_loop G T cr ni 1 r = Some (Inr ((best, k, history), r'))"
    by (simp add: find_optimal_coloring_def)
  from foc_loop_returns [OF this]
  show "\<exists>m rm. attempts_fail G T cr ni m 1 r = Some rm \<and> k = 1 + int m \<and>
        simulated_annealing G k T cr ni rm = Inr ((best, 0, history), r')"
  proof (elim exE conjE)
    fix m rm
    assume a: "attempts_fail G T cr ni m 1 r = Some rm"
      and b: "(case simulated_annealing G (1 + int m) T cr ni rm of
                 Inl e \<Rightarrow> Inr ((best, k, history), r') = Inl e
               | Inr ((best', c, history'), r'') \<Rightarrow>
                   c = 0 \<and> Inr ((best, k, history), r') = Inr ((best', 1 + int m, history'), r''))"
    from b have "k = 1 + int m \<and>
        simulated_annealing G (1 + int m) T cr ni rm = Inr ((best, 0, history), r')"
      by (simp split: sum.splits prod.splits)
    with a show ?thesis by (intro exI [of _ m] exI [of _ rm]) simp
  qed
next
  assume "\<exists>m rm. attempts_fail G T cr ni m 1 r = Some rm \<and> k = 1 + int m \<and>
        simulated_annealing G k T cr ni rm = Inr ((best, 0, history), r')"
  then obtain m rm where a: "attempts_fail G T cr ni m 1 r = Some rm" and k: "k = 1 + int m"
    and sa: "simulated_annealing G k T cr ni rm = Inr ((best, 0, history), r')"
    by blast
  have "foc_loop G T cr ni 1 r = foc_loop G T cr ni k rm"
    unfolding k by (rule foc_loop_after_failures [OF a])
  also have "\<dots> = Some (Inr ((best, k, history), r'))" by (rule foc_loop_success [OF sa])
  finally show "find_optimal_coloring G T cr ni r = Some (Inr ((best, k, history), r'))"
    by (simp add: find_optimal_coloring_def)
qed

theorem find_optimal_coloring_first_success_witness:
  "simulated_annealing one_edge 1 10 (1/2) 0 rng_worsen = Inr (([(0, 0), (1, 0)], 1, [1]), rng_two) \<and>
   simulated_annealing one_edge 2 10 (1/2) 0 rng_two = Inr (([(0, 0), (1, 1)], 0, [0]), rng_zero) \<and>
   find_optimal_coloring one_edge 10 (1/2) 0 rng_worsen =
     Some (Inr (([(0, 0), (1, 1)], 2, [0]), rng_zero))"
proof -
  have a: "attempts_fail one_edge 10 (1/2) 0 1 1 rng_worsen = Some rng_two"
    by (simp add: sa_one_colour)
  have "\<exists>m rm. attempts_fail one_edge 10 (1/2) 0 m 1 rng_worsen = Some rm \<and> (2::int) = 1 + int m \<and>
        simulated_annealing one_edge 2 10 (1/2) 0 rm = Inr (([(0, 0), (1, 1)], 0, [0]), rng_zero)"
    using a sa_two_colours by (intro exI [of _ 1] exI [of _ rng_two]) simp
  then have "find_optimal_coloring one_edge 10 (1/2) 0 rng_worsen =
     Some (Inr (([(0, 0), (1, 1)], 2, [0]), rng_zero))"
    by (simp only: find_optimal_coloring_first_success)
  with sa_one_colour sa_two_colours show ?thesis by simp
qed

lemma neighbor_empty: "neighbor [] k r = Inl IndexError"
  by (simp add: neighbor_def random_choice_def)

lemma sa_empty_nodes:
  assumes "wf_graph G" and "nodes G = []" and "1 \<le> n_iterations"
  shows "simulated_annealing G k T cr n_iterations r = Inl IndexError"
proof -
  from assms(1,2) have e: "edges G = []"
    by (cases "edges G") (auto simp: wf_graph_def)
  have i: "sa_init G k T r =
      Inr (\<lparr>current_solution = [], current_cost = 0, best_solution = [],
             best_cost = 0, temperature = T, cost_history = [0]\<rparr>, r)"
    by (simp add: sa_init_def initial_solution_def cost_def assms(2) e)
  from assms(3) obtain m where n: "nat n_iterations = Suc m"
    by (cases "nat n_iterations") auto
  show ?thesis
    by (simp add: simulated_annealing_def sa_run_def i n sa_step_def neighbor_empty)
qed

text \<open>
  Claim C10. On a graph without nodes the initial colouring is the empty dictionary,
  \<open>neighbor\<close> of it raises IndexError, and so a run of at least one iteration raises
  IndexError, whatever the number of colours, and \<open>find_optimal_coloring\<close> with it.
\<close>

theorem empty_graph_run_fails:
  assumes "wf_graph G" and "nodes G = []" and "1 \<le> n_iterations"
  shows "initial_solution G n_colors r = Inr ([], r) \<and>
         neighbor [] n_colors r = Inl IndexError \<and>
         simulated_annealing G n_colors T cr n_iterations r = Inl IndexError \<and>
         find_optimal_coloring G T cr n_iterations r = Some (Inl IndexError)"
proof -
  have "simulated_annealing G 1 T cr n_iterations r = Inl IndexError"
    by (rule sa_empty_nodes [OF assms])
  then have "foc_loop G T cr n_iterations 1 r = Some (Inl IndexError)"
    by (rule foc_loop_error)
  with sa_empty_nodes [OF assms] show ?thesis
    by (simp add: find_optimal_coloring_def initial_solution_def assms(2) neighbor_empty)
qed

theorem empty_graph_run_fails_witness:
  "wf_graph empty_graph \<and> nodes empty_graph = [] \<and> (1::int) \<le> 1 \<and>
   initial_solution empty_graph 3 rng_zero = Inr ([], rng_zero) \<and>
   simulated_annealing empty_graph 3 10 (1/2) 1 rng_zero = Inl IndexError \<and>
   find_optimal_coloring empty_graph 10 (1/2) 1 rng_zero = Some (Inl IndexError)"
proof -
  have a: "wf_graph empty_graph" by (simp add: wf_graph_def empty_graph_def)
  have b: "nodes empty_graph = []" by (simp add: empty_graph_def)
  have c: "(1::int) \<le> 1" by simp
  from empty_graph_run_fails [OF a b c, of 3 rng_zero 10 "1/2"] a b show ?thesis by simp
qed

section \<open>The generated graph\<close>

text \<open>
  Whatever is drawn, the generated graph is well formed, its edges lead from a node to a
  greater one within \<open>[0, n_nodes)\<close>, so that none is a self-loop and no pair occurs
  twice, and its nodes are the endpoints of its edges.
\<close>

lemma add_node_simps:
  "set (nodes (add_node G u)) = insert u (set (nodes G))"
  "edges (add_node G u) = edges G"
  "distinct (nodes G) \<Longrightarrow> distinct (nodes (add_node G u))"
  by (auto simp: add_node_def)

lemma add_edge_nodes: "set (nodes (add_edge G u v)) = insert u (insert v (set (nodes G)))"
  by (auto simp: add_edge_def Let_def add_node_simps)

lemma add_edge_distinct_nodes: "distinct (nodes G) \<Longrightarrow> distinct (nodes (add_edge G u v))"
  by (simp add: add_edge_def Let_def add_node_simps)

lemma add_edge_edges:
  "edges (add_edge G u v) =
     (if (u, v) \<in> set (edges G) \<or> (v, u) \<in> set (edges G) then edges G else edges G @ [(u, v)])"
  by (simp add: add_edge_def Let_def add_node_simps)

lemma gen_inv_add_edge:
  assumes "gen_inv n G" and "0 \<le> i" and "i < j" and "j < n"
  shows "gen_inv n (add_edge G i j)"
proof (cases "(i, j) \<in> set (edges G) \<or> (j, i) \<in> set (edges G)")
  case True
  then have e: "edges (add_edge G i j) = edges G" by (simp add: add_edge_edges)
  from True assms(1) have "i \<in> set (nodes G)" "j \<in> set (nodes G)"
    unfolding gen_inv_def by force+
  then have n: "set (nodes (add_edge G i j)) = set (nodes G)"
    by (auto simp: add_edge_nodes)
  from assms(1) show ?thesis
    unfolding gen_inv_def wf_graph_def e n
    by (simp add: add_edge_distinct_nodes)
next
  case False
  then have e: "edges (add_edge G i j) = edges G @ [(i, j)]" by (simp add: add_edge_edges)
  note n = add_edge_nodes [of G i j]
  from assms(1) have w: "wf_graph G"
    and b: "\<forall>e \<in> set (edges G). 0 \<le> fst e \<and> fst e < snd e \<and> snd e < n"
    and s: "set (nodes G) = fst ` set (edges G) \<union> snd ` set (edges G)"
    unfolding gen_inv_def by simp_all
  have 1: "distinct (nodes (add_edge G i j))"
    using w by (simp add: wf_graph_def add_edge_distinct_nodes)
  have 2: "\<forall>e \<in> set (edges (add_edge G i j)).
             fst e \<in> set (nodes (add_edge G i j)) \<and> snd e \<in> set (nodes (add_edge G i j))"
    using w unfolding e n wf_graph_def by auto
  have 3: "distinct (edges (add_edge G i j))"
    using w False unfolding e wf_graph_def by simp
  have 4: "\<forall>e \<in> set (edges (add_edge G i j)).
             fst e \<noteq> snd e \<longrightarrow> (snd e, fst e) \<notin> set (edges (add_edge G i j))"
    using w False assms(3) unfolding e wf_graph_def by auto
  have 5: "\<forall>e \<in> set (edges (add_edge G i j)). 0 \<le> fst e \<and> fst e < snd e \<and> snd e < n"
    using b assms(2-4) unfolding e by auto
  have 6: "set (nodes (add_edge G i j)) =
             fst ` set (edges (add_edge G i j)) \<union> snd ` set (edges (add_edge G i j))"
    unfolding e n s by auto
  from 1 2 3 4 5 6 show ?thesis unfolding gen_inv_def wf_graph_def by simp
qed

lemma gen_inv_inner:
  assumes "gen_inv n G" and "0 \<le> i" and "\<forall>j \<in> set js. i < j \<and> j < n"
  shows "gen_inv n (fst (gen_inner p i js (G, r)))"
  using assms
proof (induction js arbitrary: G r)
  case Nil
  then show ?case by simp
next
  case (Cons j js)
  let ?r' = "r\<lparr>unit_draws := stl (unit_draws r)\<rparr>"
  let ?G' = "if shd (unit_draws r) < p then add_edge G i j else G"
  from Cons.prems have "gen_inv n ?G'" by (simp add: gen_inv_add_edge)
  moreover from Cons.prems have "\<forall>j \<in> set js. i < j \<and> j < n" by simp
  ultimately have "gen_inv n (fst (gen_inner p i js (?G', ?r')))"
    using Cons.prems(2) by (intro Cons.IH)
  then show ?case by (simp add: random_random_def)
qed

lemma gen_inv_outer:
  assumes "gen_inv n G" and "\<forall>i \<in> set is. 0 \<le> i"
  shows "gen_inv n (fst (gen_outer p n is (G, r)))"
  using assms
proof (induction "is" arbitrary: G r)
  case Nil
  then show ?case by simp
next
  case (Cons i "is")
  obtain G1 r1 where g: "gen_inner p i [i + 1 .. n - 1] (G, r) = (G1, r1)"
    by (cases "gen_inner p i [i + 1 .. n - 1] (G, r)")
  from Cons.prems have "0 \<le> i" by simp
  with Cons.prems(1) have "gen_inv n (fst (gen_inner p i [i + 1 .. n - 1] (G, r)))"
    by (intro gen_inv_inner) auto
  with g have "gen_inv n G1" by simp
  moreover from Cons.prems have "\<forall>i \<in> set is. 0 \<le> i" by simp
  ultimately have "gen_inv n (fst (gen_outer p n is (G1, r1)))" by (intro Cons.IH)
  with g show ?case by simp
qed

lemma generate_random_graph_inv: "gen_inv n (fst (generate_random_graph n p r))"
  unfolding generate_random_graph_def
  by (rule gen_inv_outer) (simp_all add: gen_inv_def wf_graph_def empty_graph_def)

section \<open>The entry points and their inputs\<close>

lemma generate_no_nodes:
  "n_nodes \<le> 0 \<Longrightarrow> generate_random_graph n_nodes p r = (empty_graph, r)"
  by (simp add: generate_random_graph_def)

lemma sa_no_iterations:
  "n_iterations \<le> 0 \<Longrightarrow>
   simulated_annealing G k T cr n_iterations r = simulated_annealing G k T' cr' 0 r"
  by (simp add: simulated_annealing_def sa_run_def sa_init_def split: sum.splits prod.splits)

lemma gen_inner_cong:
  assumes "\<forall>u \<in> sset (unit_draws r). (u < p) = (u < p')"
  shows "gen_inner p i js (G, r) = gen_inner p' i js (G, r)"
  using assms
proof (induction js arbitrary: G r)
  case Nil
  then show ?case by simp
next
  case (Cons j js)
  let ?r' = "r\<lparr>unit_draws := stl (unit_draws r)\<rparr>"
  from Cons.prems have h: "(shd (unit_draws r) < p) = (shd (unit_draws r) < p')"
    by (simp add: shd_sset)
  from Cons.prems have "\<forall>u \<in> sset (unit_draws ?r'). (u < p) = (u < p')"
    by (auto dest: stl_sset)
  from Cons.IH [OF this] h show ?case by (simp add: random_random_def)
qed

lemma gen_inner_draws:
  "sset (unit_draws (snd (gen_inner p i js (G, r)))) \<subseteq> sset (unit_draws r)"
proof (induction js arbitrary: G r)
  case Nil
  then show ?case by simp
next
  case (Cons j js)
  let ?r' = "r\<lparr>unit_draws := stl (unit_draws r)\<rparr>"
  have "sset (unit_draws ?r') \<subseteq> sset (unit_draws r)" by (auto dest: stl_sset)
  with Cons.IH [of _ ?r'] show ?case by (simp add: random_random_def) blast
qed

lemma gen_outer_cong:
  assumes "\<forall>u \<in> sset (unit_draws r). (u < p) = (u < p')"
  shows "gen_outer p n is (G, r) = gen_outer p' n is (G, r)"
  using assms
proof (induction "is" arbitrary: G r)
  case Nil
  then show ?case by simp
next
  case (Cons i "is")
  obtain G1 r1 where g: "gen_inner p i [i + 1 .. n - 1] (G, r) = (G1, r1)"
    by (cases "gen_inner p i [i + 1 .. n - 1] (G, r)")
  from gen_inner_cong [OF Cons.prems] g
  have g': "gen_inner p' i [i + 1 .. n - 1] (G, r) = (G1, r1)" by simp
  from gen_inner_draws [of p i "[i + 1 .. n - 1]" G r] g
  have "sset (unit_draws r1) \<subseteq> sset (unit_draws r)" by simp
  with Cons.prems have "\<forall>u \<in> sset (unit_draws r1). (u < p) = (u < p')" by blast
  from Cons.IH [OF this] show ?case by (simp add: g g')
qed

lemma generate_clamps_probability:
  assumes "\<forall>u \<in> sset (unit_draws r). 0 \<le> u \<and> u < 1"
  shows "1 \<le> p \<Longrightarrow> generate_random_graph n p r = generate_random_graph n 1 r"
    and "p \<le> 0 \<Longrightarrow> generate_random_graph n p r = generate_random_graph n 0 r"
proof -
  assume "1 \<le> p"
  with assms have "\<forall>u \<in> sset (unit_draws r). (u < p) = (u < 1)" by fastforce
  then show "generate_random_graph n p r = generate_random_graph n 1 r"
    unfolding generate_random_graph_def by (rule gen_outer_cong)
next
  assume "p \<le> 0"
  with assms have "\<forall>u \<in> sset (unit_draws r). (u < p) = (u < 0)" by fastforce
  then show "generate_random_graph n p r = generate_random_graph n 0 r"
    unfolding generate_random_graph_def by (rule gen_outer_cong)
qed

lemma generate_pair: "generate_random_graph 2 1 rng_half = (one_edge, rng_half)"
  by (simp add: generate_random_graph_def random_random_def add_edge_def add_node_def
      empty_graph_def one_edge_def rng_half_def upto.simps)

lemma generate_nothing: "generate_random_graph 3 0 rng_half = (empty_graph, rng_half)"
  by (simp add: generate_random_graph_def random_random_def empty_graph_def rng_half_def upto.simps)

lemma generate_isolated: "generate_random_graph 3 (1/4) rng_first = (one_edge, rng_half)"
  by (simp add: generate_random_graph_def random_random_def add_edge_def add_node_def
      empty_graph_def one_edge_def rng_half_def rng_first_def upto.simps)

text \<open>
  Claim C7, as amended. No numeric input is checked. \<open>generate_random_graph\<close> returns
  the empty graph for every \<open>n_nodes \<le> 0\<close>; with draws in \<open>[0, 1)\<close> an edge probability
  of 1 or more gives the graph that 1 gives and an edge probability of 0 or less the graph
  that 0 gives. With \<open>n_iterations \<le> 0\<close>, \<open>find_optimal_coloring\<close> does what it does for
  zero iterations, whatever the initial temperature and the cooling rate.
\<close>

theorem inputs_not_validated:
  "(n_nodes \<le> 0 \<longrightarrow> generate_random_graph n_nodes p r = (empty_graph, r)) \<and>
   ((\<forall>u \<in> sset (unit_draws r). 0 \<le> u \<and> u < 1) \<longrightarrow>
      (1 \<le> p \<longrightarrow> generate_random_graph n_nodes p r = generate_random_graph n_nodes 1 r) \<and>
      (p \<le> 0 \<longrightarrow> generate_random_graph n_nodes p r = generate_random_graph n_nodes 0 r)) \<and>
   (n_iterations \<le> 0 \<longrightarrow>
      find_optimal_coloring G T cr n_iterations r1 = find_optimal_coloring G T' cr' 0 r1)"
proof (intro conjI impI)
  assume "n_nodes \<le> 0"
  then show "generate_random_graph n_nodes p r = (empty_graph, r)" by (rule generate_no_nodes)
next
  assume "\<forall>u \<in> sset (unit_draws r). 0 \<le> u \<and> u < 1" and "1 \<le> p"
  then show "generate_random_graph n_nodes p r = generate_random_graph n_nodes 1 r"
    by (rule generate_clamps_probability(1))
next
  assume "\<forall>u \<in> sset (unit_draws r). 0 \<le> u \<and> u < 1" and "p \<le> 0"
  then show "generate_random_graph n_nodes p r = generate_random_graph n_nodes 0 r"
    by (rule generate_clamps_probability(2))
next
  assume "n_iterations \<le> 0"
  then have "\<And>k r. simulated_annealing G k T cr n_iterations r = simulated_annealing G k T' cr' 0 r"
    by (rule sa_no_iterations)
  then show "find_optimal_coloring G T cr n_iterations r1 = find_optimal_coloring G T' cr' 0 r1"
    unfolding find_optimal_coloring_def by (rule foc_loop_cong)
qed

theorem inputs_not_validated_witness:
  "(-1::int) \<le> 0 \<and> generate_random_graph (-1) 2 rng_half = (empty_graph, rng_half) \<and>
   sset (unit_draws rng_half) = {1/2} \<and> (1::real) \<le> 2 \<and>
   generate_random_graph 2 2 rng_half = (one_edge, rng_half) \<and>
   (-1::real) \<le> 0 \<and> generate_random_graph 3 (-1) rng_half = (empty_graph, rng_half) \<and>
   find_optimal_coloring one_edge 0 (-1) (-1) rng_worsen =
     Some (Inr (([(0, 0), (1, 1)], 2, [0]), rng_zero))"
proof -
  have u: "\<forall>u \<in> sset (unit_draws rng_half). 0 \<le> u \<and> u < 1" by (simp add: rng_half_def)
  have a: "generate_random_graph (-1) 2 rng_half = (empty_graph, rng_half)"
    using inputs_not_validated [of "-1" 2 rng_half] by simp
  have b: "generate_random_graph 2 2 rng_half = (one_edge, rng_half)"
    using inputs_not_validated [of 2 2 rng_half] u generate_pair by simp
  have c: "generate_random_graph 3 (-1) rng_half = (empty_graph, rng_half)"
    using inputs_not_validated [of 3 "-1" rng_half] u generate_nothing by simp
  have d: "find_optimal_coloring one_edge 0 (-1) (-1) rng_worsen =
     Some (Inr (([(0, 0), (1, 1)], 2, [0]), rng_zero))"
    using inputs_not_validated [of 0 0 rng_half "-1" one_edge 0 "-1" rng_worsen 10 "1/2"]
      foc_zero_iterations by simp
  have s: "sset (unit_draws rng_half) = {1/2}" by (simp add: rng_half_def)
  from s a b c d show ?thesis by simp
qed

text \<open>
  The claim as the specification states it fails: a negative number of nodes, an edge
  probability of 2, and a zero temperature with negative cooling rate and number of
  iterations all return a result.
\<close>

theorem inputs_not_validated_counterexample:
  "generate_random_graph (-1) 2 rng_half = (empty_graph, rng_half) \<and>
   generate_random_graph 2 2 rng_half = (one_edge, rng_half) \<and>
   find_optimal_coloring one_edge 0 (-1) (-1) rng_worsen =
     Some (Inr (([(0, 0), (1, 1)], 2, [0]), rng_zero))"
proof -
  have "generate_random_graph (-1) 2 rng_half = (empty_graph, rng_half)"
    by (simp add: generate_random_graph_def)
  moreover have "generate_random_graph 2 2 rng_half = (one_edge, rng_half)"
    by (simp add: generate_random_graph_def random_random_def add_edge_def add_node_def
      empty_graph_def one_edge_def rng_half_def upto.simps)
  moreover have "find_optimal_coloring one_edge 0 (-1) (-1) rng_worsen =
     find_optimal_coloring one_edge 10 (1/2) 0 rng_worsen"
    unfolding find_optimal_coloring_def
    by (rule foc_loop_cong) (rule sa_no_iterations, simp)
  ultimately show ?thesis using foc_zero_iterations by simp
qed

text \<open>
  Claim C8. The nodes of the generated graph are not \<open>{0, \<dots>, n_nodes - 1}\<close>:
  \<open>add_edge\<close> is the only call that adds a node, so a node without an edge is missing.
  With three nodes asked for, an edge probability of 0 gives a graph without nodes, and
  draws that include only the edge between 0 and 1 give a graph without node 2.
\<close>

theorem isolated_nodes_dropped:
  "nodes (fst (generate_random_graph 3 0 rng_half)) = [] \<and>
   nodes (fst (generate_random_graph 3 (1/4) rng_first)) = [0, 1]"
  by (simp add: generate_nothing generate_isolated empty_graph_def one_edge_def)

end
